theory Spec2Isabelle
  imports Main "HOL-Library.Sublist"
begin

section \<open>Strings as the fetcher uses them\<close>

text \<open>
  The element feed is plain ASCII text. A Python \<open>str\<close> of such text is modelled as a
  \<open>string\<close>; the string methods the fetcher calls are written out below. They are those of
  Python on ASCII text; beyond ASCII \<open>str.upper()\<close> also converts letters that the model
  keeps (the sharp s becomes SS), so the statements about what the scan matches in an
  arbitrary text are made for ASCII text.
\<close>

definition is_ascii :: "string \<Rightarrow> bool" where
  \<comment> \<open>every character is one of the 128 ASCII characters\<close>
  "is_ascii s = list_all (\<lambda>c. (of_char c :: nat) < 128) s"

definition isspace :: "char \<Rightarrow> bool" where
  \<comment> \<open>the characters \<open>str.strip()\<close> removes: tab, line feed, vertical tab, form feed,
      carriage return, the four separators 0x1C..0x1F, space, NEL and NBSP\<close>
  "isspace c =
     (let n = (of_char c :: nat)
      in (9 \<le> n \<and> n \<le> 13) \<or> (28 \<le> n \<and> n \<le> 32) \<or> n = 133 \<or> n = 160)"

definition strip :: "string \<Rightarrow> string" where
  \<comment> \<open>\<open>s.strip()\<close>: leading and trailing whitespace removed\<close>
  "strip s = rev (dropWhile isspace (rev (dropWhile isspace s)))"

definition upper_char :: "char \<Rightarrow> char" where
  \<comment> \<open>\<open>str.upper()\<close> on one ASCII character: \<open>a\<close>..\<open>z\<close> go to \<open>A\<close>..\<open>Z\<close>, every
      other one is kept. Letters beyond ASCII, which Python would also convert, do not
      occur in the feed and are kept here.\<close>
  "upper_char c =
     (case map_of (zip ''abcdefghijklmnopqrstuvwxyz'' ''ABCDEFGHIJKLMNOPQRSTUVWXYZ'') c of
        Some C \<Rightarrow> C
      | None \<Rightarrow> c)"

definition upper :: "string \<Rightarrow> string" where
  \<comment> \<open>\<open>s.upper()\<close>\<close>
  "upper s = map upper_char s"

fun split_nl :: "string \<Rightarrow> string list" where
  \<comment> \<open>\<open>s.split('\n')\<close>: always at least one piece, empty pieces kept\<close>
  "split_nl [] = [[]]"
| "split_nl (c # cs) =
     (if c = CHR 0x0A then [] # split_nl cs
      else (case split_nl cs of [] \<Rightarrow> [[c]] | piece # pieces \<Rightarrow> (c # piece) # pieces))"

fun contains :: "string \<Rightarrow> string \<Rightarrow> bool" where
  \<comment> \<open>\<open>p in s\<close> on strings: \<open>p\<close> occurs in \<open>s\<close> as a contiguous run\<close>
  "contains p [] = (p = [])"
| "contains p (c # cs) = (prefix p (c # cs) \<or> contains p cs)"

section \<open>Position Fetcher\<close>

text \<open>
  What \<open>requests.get(url, timeout=10)\<close> followed by \<open>raise_for_status()\<close> gives: either a
  \<open>RequestException\<close> (connection error, timeout, HTTP error status) with its message, or
  the body text of the response.
\<close>

datatype response = RequestException string | Text string

definition ascii_response :: "response \<Rightarrow> bool" where
  \<comment> \<open>the body text, when there is one, is ASCII\<close>
  "ascii_response resp = (case resp of RequestException e \<Rightarrow> True | Text text \<Rightarrow> is_ascii text)"

definition name_match :: "string \<Rightarrow> bool" where
  \<comment> \<open>the test of line 24: \<open>'ISS' in line.upper() or 'ZARYA' in line.upper()\<close>\<close>
  "name_match line = (contains ''ISS'' (upper line) \<or> contains ''ZARYA'' (upper line))"

fun scan_lines :: "string list \<Rightarrow> nat \<Rightarrow> string list \<Rightarrow> (string \<times> string) option" where
  \<comment> \<open>the loop \<open>for i, line in enumerate(lines)\<close> of lines 23-27, entered at index \<open>i\<close>
      with the lines from \<open>i\<close> on still to visit; falling out of the loop returns None\<close>
  "scan_lines lines i [] = None"
| "scan_lines lines i (line # rest) =
     (if name_match line then
        (if i + 2 < length lines
         then Some (strip (lines ! (i + 1)), strip (lines ! (i + 2)))
         else scan_lines lines (i + 1) rest)
      else scan_lines lines (i + 1) rest)"

definition text_lines :: "string \<Rightarrow> string list" where
  \<comment> \<open>line 22: \<open>response.text.strip().split('\n')\<close>\<close>
  "text_lines text = split_nl (strip text)"

definition fetch_iss_tle :: "response \<Rightarrow> string list \<Rightarrow> (string \<times> string) option \<times> string list" where
  \<comment> \<open>The second argument and result is the page's error surface: the messages shown
      through \<open>st.error\<close>. A \<open>RequestException\<close> is caught, reported and turned into None.\<close>
  "fetch_iss_tle resp errs =
     (case resp of
        RequestException e \<Rightarrow> (None, errs @ [''Error fetching TLE data: '' @ e])
      | Text text \<Rightarrow> (scan_lines (text_lines text) 0 (text_lines text), errs))"

section \<open>History Tracker and refresh loop\<close>

text \<open>
  A position fix is the dictionary \<open>get_current_iss_position\<close> returns. The timestamp is a
  UTC instant, counted in microseconds (the resolution of a Python \<open>datetime\<close>); the three
  coordinates are floating-point numbers of which only equality is ever used, so their type
  is left open.
\<close>

record 'r position_fix =
  timestamp :: int
  latitude :: 'r
  longitude :: 'r
  altitude :: 'r

text \<open>
  The session: the data frame \<open>st.session_state.tracking_data\<close> (its rows, in order), what
  each of the three placeholders currently shows (None while it is still empty), and the
  error surface.
\<close>

record 'r session =
  tracking_data :: "'r position_fix list"
  map_placeholder :: "'r position_fix list option"
  telemetry_placeholder :: "'r position_fix option"
  table_placeholder :: "'r position_fix list option"
  errors :: "string list"

definition session_init :: "'r session" where
  \<comment> \<open>lines 55-69: an empty data frame and three empty placeholders\<close>
  "session_init =
     \<lparr>tracking_data = [], map_placeholder = None, telemetry_placeholder = None,
      table_placeholder = None, errors = []\<rparr>"

text \<open>
  One refresh cycle meets the outside world twice: the HTTP request, and the call of
  \<open>get_current_iss_position\<close>, which hands the two element lines to the Skyfield library and
  reads the clock. The library either raises (Inl, with the exception's message) or yields a
  fix; \<open>get_current_iss_position\<close> has no handler of its own.
\<close>

record 'r cycle_env =
  http :: response
  get_current_iss_position :: "string \<Rightarrow> string \<Rightarrow> string + 'r position_fix"

fun drop_dups_seen :: "'a list \<Rightarrow> 'a list \<Rightarrow> 'a list" where
  \<comment> \<open>rows in order, leaving out each row equal to one already seen\<close>
  "drop_dups_seen seen [] = []"
| "drop_dups_seen seen (x # xs) =
     (if x \<in> set seen then drop_dups_seen seen xs else x # drop_dups_seen (x # seen) xs)"

definition drop_duplicates :: "'a list \<Rightarrow> 'a list" where
  \<comment> \<open>\<open>DataFrame.drop_duplicates()\<close> with its defaults (all columns, \<open>keep='first'\<close>):
      of equal rows the first one stays\<close>
  "drop_duplicates rows = drop_dups_seen [] rows"

definition tail :: "nat \<Rightarrow> 'a list \<Rightarrow> 'a list" where
  \<comment> \<open>\<open>DataFrame.tail(n)\<close>: the last \<open>n\<close> rows, all of them if there are fewer\<close>
  "tail n rows = drop (length rows - n) rows"

definition merge :: "'r position_fix list \<Rightarrow> 'r position_fix \<Rightarrow> 'r position_fix list" where
  \<comment> \<open>lines 98-100: \<open>pd.concat([tracking_data, new_row]).drop_duplicates().tail(20)\<close>\<close>
  "merge rows new_row = tail 20 (drop_duplicates (rows @ [new_row]))"

definition sort_values_desc :: "'r position_fix list \<Rightarrow> 'r position_fix list" where
  \<comment> \<open>\<open>sort_values('timestamp', ascending=False)\<close>: latest first, rows of equal
      timestamp in the order they have in the data frame (pandas sorts the reversed rows
      in ascending order and reverses the outcome)\<close>
  "sort_values_desc rows = rev (sort_key timestamp (rev rows))"

datatype outcome = Returned | Raised string

definition update_position :: "'r cycle_env \<Rightarrow> 'r session \<Rightarrow> outcome \<times> 'r session" where
  \<comment> \<open>lines 84-140. An exception raised by \<open>get_current_iss_position\<close> leaves the function
      at line 89, before anything is assigned or drawn.\<close>
  "update_position env st =
     (case fetch_iss_tle (http env) (errors st) of
        (None, errs) \<Rightarrow> (Returned, st\<lparr>errors := errs\<rparr>)
      | (Some (line1, line2), errs) \<Rightarrow>
          (case get_current_iss_position env line1 line2 of
             Inl exn \<Rightarrow> (Raised exn, st\<lparr>errors := errs\<rparr>)
           | Inr position \<Rightarrow>
               (let data = merge (tracking_data st) position
                in (Returned,
                    st\<lparr>tracking_data := data,
                       map_placeholder := Some data,
                       telemetry_placeholder := Some position,
                       table_placeholder := Some (sort_values_desc data),
                       errors := errs\<rparr>))))"

fun main_loop :: "'r cycle_env list \<Rightarrow> 'r session \<Rightarrow> outcome \<times> 'r session" where
  \<comment> \<open>lines 80-82, \<open>while auto_update: update_position(...); time.sleep(update_freq)\<close>, run
      for the cycles whose environments are listed; an exception leaving \<open>update_position\<close>
      leaves the loop as well, there being no handler around it\<close>
  "main_loop [] st = (Returned, st)"
| "main_loop (env # envs) st =
     (case update_position env st of
        (Returned, st') \<Rightarrow> main_loop envs st'
      | (Raised exn, st') \<Rightarrow> (Raised exn, st'))"

text \<open>
  The fix a cycle produces when both the fetch and the propagation succeed, and the kind of
  error it meets otherwise.
\<close>

datatype error_kind = Transport | NotFound | Invalid

definition cycle_fix :: "'r cycle_env \<Rightarrow> 'r position_fix option" where
  "cycle_fix env =
     (case fst (fetch_iss_tle (http env) []) of
        None \<Rightarrow> None
      | Some (line1, line2) \<Rightarrow>
          (case get_current_iss_position env line1 line2 of
             Inl exn \<Rightarrow> None
           | Inr position \<Rightarrow> Some position))"

definition cycle_error :: "'r cycle_env \<Rightarrow> error_kind option" where
  "cycle_error env =
     (case http env of
        RequestException e \<Rightarrow> Some Transport
      | Text text \<Rightarrow>
          (case scan_lines (text_lines text) 0 (text_lines text) of
             None \<Rightarrow> Some NotFound
           | Some (line1, line2) \<Rightarrow>
               (case get_current_iss_position env line1 line2 of
                  Inl exn \<Rightarrow> Some Invalid
                | Inr position \<Rightarrow> None)))"

definition dedup_key :: "'r position_fix \<Rightarrow> int \<times> 'r \<times> 'r \<times> 'r" where
  \<comment> \<open>the four columns \<open>drop_duplicates\<close> compares\<close>
  "dedup_key p = (timestamp p, latitude p, longitude p, altitude p)"

section \<open>The merge as the specification words it\<close>

definition reference_merge :: "'r position_fix list \<Rightarrow> 'r position_fix \<Rightarrow> 'r position_fix list" where
  \<comment> \<open>append the new fix; remove the prior entries that equal the new entry, which
      itself stays at the end; keep the most recent twenty\<close>
  "reference_merge rows new_row =
     (let appended = rows @ [new_row];
          deduplicated = filter (\<lambda>r. r \<noteq> new_row) (butlast appended) @ [last appended]
      in tail 20 deduplicated)"

section \<open>Matching without regard to case, as the specification words it\<close>

definition same_letter :: "char \<Rightarrow> char \<Rightarrow> bool" where
  \<comment> \<open>the same character, or the lower-case and the upper-case form of one letter\<close>
  "same_letter c d =
     (c = d
      \<or> (c, d) \<in> set (zip ''abcdefghijklmnopqrstuvwxyz'' ''ABCDEFGHIJKLMNOPQRSTUVWXYZ'')
      \<or> (d, c) \<in> set (zip ''abcdefghijklmnopqrstuvwxyz'' ''ABCDEFGHIJKLMNOPQRSTUVWXYZ''))"

definition spells :: "string \<Rightarrow> string \<Rightarrow> bool" where
  \<comment> \<open>\<open>w\<close> is the word \<open>p\<close> in some mix of upper and lower case\<close>
  "spells w p = list_all2 same_letter w p"

section \<open>Sample cycles\<close>

definition sample_fix :: "nat \<Rightarrow> int position_fix" where
  "sample_fix k = \<lparr>timestamp = int k, latitude = 0, longitude = 0, altitude = 0\<rparr>"

definition sample_env :: "nat \<Rightarrow> int cycle_env" where
  \<comment> \<open>a cycle whose fetch finds the header and whose propagation yields \<open>sample_fix k\<close>\<close>
  "sample_env k =
     \<lparr>http = Text ''ISS (ZARYA)\<newline>A\<newline>B'',
      get_current_iss_position = (\<lambda>line1 line2. Inr (sample_fix k))\<rparr>"

definition transport_env :: "int cycle_env" where
  \<comment> \<open>a cycle whose HTTP request times out\<close>
  "transport_env =
     \<lparr>http = RequestException ''timed out'',
      get_current_iss_position = (\<lambda>line1 line2. Inr (sample_fix 0))\<rparr>"

definition rejecting_env :: "int cycle_env" where
  \<comment> \<open>a cycle whose fetch finds the header above two lines that are no element set, which
      the library refuses with a \<open>ValueError\<close>\<close>
  "rejecting_env =
     \<lparr>http = Text ''ISS (ZARYA)\<newline>foo\<newline>bar'',
      get_current_iss_position = (\<lambda>line1 line2. Inl ''ValueError'')\<rparr>"

section \<open>Sample feeds\<close>

text \<open>Element lines in the fixed 69-column layout, each closed by its checksum digit.\<close>

definition iss_line1 :: string where
  "iss_line1 = ''1 25544U 98067A   24001.50000000  .00016717  00000-0  10270-3 0  9997''"

definition iss_line2 :: string where
  "iss_line2 = ''2 25544  51.6400 208.9163 0006317  69.9862  25.2906 15.49560532    19''"

definition deb_line1 :: string where
  "deb_line1 = ''1 47853U 98067RZ  24001.50000000  .00020000  00000-0  30000-3 0  9997''"

definition deb_line2 :: string where
  "deb_line2 = ''2 47853  51.6300 200.0000 0005000  80.0000 280.0000 15.60000000    12''"

definition noaa_line1 :: string where
  "noaa_line1 = ''1 25338U 98030A   24001.50000000  .00000300  00000-0  14000-3 0  9994''"

definition noaa_line2 :: string where
  "noaa_line2 = ''2 25338  98.5700  30.0000 0009000 200.0000 160.0000 14.26000000    17''"

definition crlf :: string where
  "crlf = [CHR 0x0D, CHR 0x0A]"

definition feed_debris_first :: string where
  \<comment> \<open>a debris object of the station listed ahead of the station itself\<close>
  "feed_debris_first =
     ''ISS DEB\<newline>'' @ deb_line1 @ ''\<newline>'' @ deb_line2 @ ''\<newline>'' @
     ''ISS (ZARYA)\<newline>'' @ iss_line1 @ ''\<newline>'' @ iss_line2 @ ''\<newline>''"

definition feed_noaa_first :: string where
  \<comment> \<open>another satellite listed ahead of the station\<close>
  "feed_noaa_first =
     ''NOAA 15\<newline>'' @ noaa_line1 @ ''\<newline>'' @ noaa_line2 @ ''\<newline>'' @
     ''ISS (ZARYA)\<newline>'' @ iss_line1 @ ''\<newline>'' @ iss_line2 @ ''\<newline>''"

definition feed_crlf :: string where
  \<comment> \<open>the same listing as the server sends it: names padded with spaces, lines ended by
      carriage return and line feed, the station's name in lower case\<close>
  "feed_crlf =
     ''NOAA 15                 '' @ crlf @ noaa_line1 @ crlf @ noaa_line2 @ crlf @
     ''iss (zarya)             '' @ crlf @ iss_line1 @ crlf @ iss_line2 @ crlf"

definition feed_padded :: string where
  \<comment> \<open>as \<open>feed_crlf\<close>, the station's name in upper case\<close>
  "feed_padded =
     ''NOAA 15                 '' @ crlf @ noaa_line1 @ crlf @ noaa_line2 @ crlf @
     ''ISS (ZARYA)             '' @ crlf @ iss_line1 @ crlf @ iss_line2 @ crlf"

definition feed_cut_short :: string where
  \<comment> \<open>a listing that ends one line after the station's header\<close>
  "feed_cut_short =
     ''NOAA 15\<newline>'' @ noaa_line1 @ ''\<newline>'' @ noaa_line2 @ ''\<newline>'' @
     ''ISS (ZARYA)\<newline>'' @ iss_line1 @ ''\<newline>''"

section \<open>Rows, duplicates and the last twenty\<close>

lemma drop_dups_seen_set: "set (drop_dups_seen seen xs) = set xs - set seen"
  by (induction xs arbitrary: seen) auto

lemma drop_dups_seen_distinct: "distinct (drop_dups_seen seen xs)"
  by (induction xs arbitrary: seen) (auto simp: drop_dups_seen_set)

lemma drop_dups_seen_snoc:
  "drop_dups_seen seen (xs @ [x]) =
     (if x \<in> set seen \<union> set xs then drop_dups_seen seen xs else drop_dups_seen seen xs @ [x])"
  by (induction xs arbitrary: seen) auto

lemma drop_dups_seen_id:
  "distinct xs \<Longrightarrow> set xs \<inter> set seen = {} \<Longrightarrow> drop_dups_seen seen xs = xs"
  by (induction xs arbitrary: seen) auto

lemma drop_duplicates_distinct: "distinct (drop_duplicates xs)"
  by (simp add: drop_duplicates_def drop_dups_seen_distinct)

lemma drop_duplicates_set: "set (drop_duplicates xs) = set xs"
  by (simp add: drop_duplicates_def drop_dups_seen_set)

lemma drop_duplicates_id: "distinct xs \<Longrightarrow> drop_duplicates xs = xs"
  by (simp add: drop_duplicates_def drop_dups_seen_id)

lemma drop_duplicates_snoc:
  "drop_duplicates (xs @ [x]) =
     (if x \<in> set xs then drop_duplicates xs else drop_duplicates xs @ [x])"
  by (simp add: drop_duplicates_def drop_dups_seen_snoc)

lemma tail_length: "length (tail n xs) = min n (length xs)"
  by (simp add: tail_def)

lemma tail_distinct: "distinct xs \<Longrightarrow> distinct (tail n xs)"
  by (simp add: tail_def)

lemma tail_short: "length xs \<le> n \<Longrightarrow> tail n xs = xs"
  by (simp add: tail_def)

lemma tail_tail_snoc: "tail n (tail n xs @ [x]) = tail n (xs @ [x])"
  by (cases "length xs \<le> n") (auto simp: tail_def Suc_diff_le)

lemma merge_length: "length (merge rows f) \<le> 20"
  by (simp add: merge_def tail_length)

lemma merge_distinct: "distinct (merge rows f)"
  by (simp add: merge_def tail_distinct drop_duplicates_distinct)

lemma merge_distinct_rows:
  "distinct rows \<Longrightarrow> merge rows f = tail 20 (if f \<in> set rows then rows else rows @ [f])"
  by (simp add: merge_def drop_duplicates_snoc drop_duplicates_id)

lemma merge_old: "distinct rows \<Longrightarrow> length rows \<le> 20 \<Longrightarrow> f \<in> set rows \<Longrightarrow> merge rows f = rows"
  by (simp add: merge_distinct_rows tail_short)

lemma merge_new: "distinct rows \<Longrightarrow> f \<notin> set rows \<Longrightarrow> merge rows f = tail 20 (rows @ [f])"
  by (simp add: merge_distinct_rows)

lemma foldl_merge_distinct:
  "distinct (rows @ fs) \<Longrightarrow> foldl merge (tail 20 rows) fs = tail 20 (rows @ fs)"
proof (induction fs arbitrary: rows)
  case Nil
  then show ?case by simp
next
  case (Cons f fs)
  have d: "distinct rows" and nf: "f \<notin> set rows" using Cons.prems by auto
  have "f \<notin> set (tail 20 rows)" using nf by (auto simp: tail_def dest: in_set_dropD)
  then have "merge (tail 20 rows) f = tail 20 (tail 20 rows @ [f])"
    using d by (simp add: merge_new tail_distinct)
  also have "\<dots> = tail 20 (rows @ [f])" by (rule tail_tail_snoc)
  finally have m: "merge (tail 20 rows) f = tail 20 (rows @ [f])" .
  have "distinct ((rows @ [f]) @ fs)" using Cons.prems by auto
  from Cons.IH [OF this] show ?case by (simp add: m)
qed

lemma foldl_merge_empty: "distinct fs \<Longrightarrow> foldl merge [] fs = tail 20 fs"
  using foldl_merge_distinct [of "[]" fs] by (simp add: tail_def)

lemma foldl_merge_inv:
  "length rows \<le> 20 \<Longrightarrow> distinct rows \<Longrightarrow>
     length (foldl merge rows fs) \<le> 20 \<and> distinct (foldl merge rows fs)"
  by (induction fs arbitrary: rows) (auto simp: merge_length merge_distinct)

section \<open>One cycle and the loop\<close>

lemma fetch_fst: "fst (fetch_iss_tle resp errs) = fst (fetch_iss_tle resp [])"
  by (cases resp) (simp_all add: fetch_iss_tle_def)

lemma fetch_snd_text: "snd (fetch_iss_tle (Text t) errs) = errs"
  by (simp add: fetch_iss_tle_def)

lemma fetch_some_errs: "fst (fetch_iss_tle resp errs) = Some p \<Longrightarrow> snd (fetch_iss_tle resp errs) = errs"
  by (cases resp) (simp_all add: fetch_iss_tle_def)

lemma update_position_success:
  assumes "cycle_fix env = Some f"
  shows "update_position env st =
           (Returned,
            st\<lparr>tracking_data := merge (tracking_data st) f,
               map_placeholder := Some (merge (tracking_data st) f),
               telemetry_placeholder := Some f,
               table_placeholder := Some (sort_values_desc (merge (tracking_data st) f))\<rparr>)"
proof -
  obtain r errs where fe: "fetch_iss_tle (http env) (errors st) = (r, errs)"
    by (cases "fetch_iss_tle (http env) (errors st)")
  have "fst (fetch_iss_tle (http env) []) = r"
    using fe fetch_fst [of "http env" "errors st"] by simp
  with assms obtain l1 l2 where r: "r = Some (l1, l2)"
    and g: "get_current_iss_position env l1 l2 = Inr f"
    by (auto simp: cycle_fix_def split: option.splits sum.splits)
  have "errs = errors st"
    using fe r fetch_some_errs [of "http env" "errors st" "(l1, l2)"] by simp
  then show ?thesis
    by (simp add: update_position_def fe r g Let_def)
qed

lemma update_position_success_data:
  "cycle_fix env = Some f \<Longrightarrow>
     fst (update_position env st) = Returned \<and>
     tracking_data (snd (update_position env st)) = merge (tracking_data st) f"
  by (simp add: update_position_success)

lemma main_loop_success:
  "map cycle_fix envs = map Some fs \<Longrightarrow>
     fst (main_loop envs st) = Returned \<and>
     tracking_data (snd (main_loop envs st)) = foldl merge (tracking_data st) fs"
proof (induction envs arbitrary: fs st)
  case Nil
  then show ?case by simp
next
  case (Cons env envs)
  then obtain f fs' where fs: "fs = f # fs'" and f: "cycle_fix env = Some f"
    and rest: "map cycle_fix envs = map Some fs'"
    by (cases fs) auto
  obtain st' where u: "update_position env st = (Returned, st')"
    and d: "tracking_data st' = merge (tracking_data st) f"
    using update_position_success_data [OF f, of st]
    by (cases "update_position env st") auto
  show ?case using Cons.IH [OF rest, of st'] by (simp add: u d fs)
qed

lemma update_position_fetch_failed:
  "fst (fetch_iss_tle (http env) (errors st)) = None \<Longrightarrow>
     update_position env st = (Returned, st\<lparr>errors := snd (fetch_iss_tle (http env) (errors st))\<rparr>)"
  by (cases "fetch_iss_tle (http env) (errors st)") (simp add: update_position_def)

lemma update_position_failure_data:
  "cycle_fix env = None \<Longrightarrow> tracking_data (snd (update_position env st)) = tracking_data st"
proof -
  assume a: "cycle_fix env = None"
  obtain r errs where fe: "fetch_iss_tle (http env) (errors st) = (r, errs)"
    by (cases "fetch_iss_tle (http env) (errors st)")
  have fr: "fst (fetch_iss_tle (http env) []) = r"
    using fe fetch_fst [of "http env" "errors st"] by simp
  show ?thesis
    using a fr by (auto simp: update_position_def fe cycle_fix_def split: option.splits sum.splits)
qed

lemma cycle_error_fix: "cycle_error env = None \<longleftrightarrow> cycle_fix env \<noteq> None"
  by (cases "http env") (auto simp: cycle_error_def cycle_fix_def fetch_iss_tle_def split: option.splits sum.splits)

lemma dedup_key_inj: "inj dedup_key"
proof (rule injI)
  fix p q :: "'r position_fix"
  assume "dedup_key p = dedup_key q"
  then show "p = q" by (cases p, cases q) (simp add: dedup_key_def)
qed

lemma distinct_count_one: "distinct xs \<Longrightarrow> x \<in> set xs \<Longrightarrow> count_list xs x = 1"
  by (induction xs) auto

lemma merge_contains_new:
  assumes "distinct rows" "length rows \<le> 20"
  shows "f \<in> set (merge rows f)"
proof (cases "f \<in> set rows")
  case True
  then show ?thesis using assms by (simp add: merge_old)
next
  case False
  then have "merge rows f = tail 20 (rows @ [f])" using assms by (simp add: merge_new)
  then show ?thesis by (simp add: tail_def)
qed

lemma sample_env_fix: "cycle_fix (sample_env k) = Some (sample_fix k)"
  by (simp add: cycle_fix_def sample_env_def fetch_iss_tle_def text_lines_def strip_def
      isspace_def name_match_def upper_def upper_char_def)

lemma timestamps_distinct: "distinct (map timestamp fs) \<Longrightarrow> distinct fs"
  by (simp add: distinct_map)

lemma transport_env_error: "cycle_error transport_env = Some Transport"
  by (simp add: cycle_error_def transport_env_def)

lemma cycle_error_some_fix: "cycle_error env = Some k \<Longrightarrow> cycle_fix env = None"
  using cycle_error_fix [of env] by auto

lemma reference_merge_new:
  "f \<notin> set rows \<Longrightarrow> reference_merge rows f = tail 20 (rows @ [f])"
proof -
  assume "f \<notin> set rows"
  then have "filter (\<lambda>r. r \<noteq> f) rows = rows" by (induction rows) auto
  then show ?thesis by (simp add: reference_merge_def)
qed

section \<open>Matching and scanning\<close>

lemma contains_sublist: "contains p s \<longleftrightarrow> sublist p s"
  by (induction s) (auto simp: sublist_Cons_right)

lemma sublist_map_iff: "sublist p (map f l) \<longleftrightarrow> (\<exists>w. sublist w l \<and> map f w = p)"
proof
  assume "sublist p (map f l)"
  then show "\<exists>w. sublist w l \<and> map f w = p"
    using sublist_map_rightE [of p f l] by auto
next
  assume "\<exists>w. sublist w l \<and> map f w = p"
  then obtain w a b where "l = a @ w @ b" "map f w = p" by (auto simp: sublist_def)
  then have "map f l = map f a @ p @ map f b" by simp
  then show "sublist p (map f l)" unfolding sublist_def by blast
qed

lemma ex_conj_disj: "(\<exists>w. P w \<and> A w) \<or> (\<exists>w. P w \<and> B w) \<longleftrightarrow> (\<exists>w. P w \<and> (A w \<or> B w))"
  by blast

lemma name_match_iff:
  "name_match line \<longleftrightarrow> (\<exists>w. sublist w line \<and> (upper w = ''ISS'' \<or> upper w = ''ZARYA''))"
proof -
  have "name_match line \<longleftrightarrow> sublist ''ISS'' (map upper_char line) \<or> sublist ''ZARYA'' (map upper_char line)"
    by (simp only: name_match_def contains_sublist upper_def)
  also have "\<dots> \<longleftrightarrow> (\<exists>w. sublist w line \<and> map upper_char w = ''ISS'')
                   \<or> (\<exists>w. sublist w line \<and> map upper_char w = ''ZARYA'')"
    by (simp only: sublist_map_iff)
  also have "\<dots> \<longleftrightarrow> (\<exists>w. sublist w line \<and> (upper w = ''ISS'' \<or> upper w = ''ZARYA''))"
    unfolding upper_def by (rule ex_conj_disj)
  finally show ?thesis .
qed

lemma name_match_mono:
  assumes "sublist l l'" and "name_match l"
  shows "name_match l'"
proof -
  from assms(2) obtain w where w: "sublist w l" "upper w = ''ISS'' \<or> upper w = ''ZARYA''"
    unfolding name_match_iff by blast
  from w(1) assms(1) have "sublist w l'" by (rule sublist_order.order_trans)
  with w(2) show ?thesis unfolding name_match_iff by blast
qed

lemma scan_lines_none:
  "(\<forall>k<length rest. name_match (rest ! k) \<longrightarrow> \<not> i + k + 2 < length lines) \<Longrightarrow>
     scan_lines lines i rest = None"
proof (induction rest arbitrary: i)
  case Nil
  then show ?case by simp
next
  case (Cons line rest)
  have h0: "name_match line \<longrightarrow> \<not> i + 2 < length lines"
    using Cons.prems [rule_format, of 0] by simp
  have "\<forall>k<length rest. name_match (rest ! k) \<longrightarrow> \<not> (i + 1) + k + 2 < length lines"
  proof (intro allI impI)
    fix k assume "k < length rest" "name_match (rest ! k)"
    then show "\<not> (i + 1) + k + 2 < length lines"
      using Cons.prems [rule_format, of "Suc k"] by simp
  qed
  then have "scan_lines lines (i + 1) rest = None" by (rule Cons.IH)
  then show ?case using h0 by simp
qed

lemma scan_lines_first:
  "k < length rest \<Longrightarrow> name_match (rest ! k) \<Longrightarrow> (\<forall>j<k. \<not> name_match (rest ! j)) \<Longrightarrow>
     i + k + 2 < length lines \<Longrightarrow>
     scan_lines lines i rest = Some (strip (lines ! (i + k + 1)), strip (lines ! (i + k + 2)))"
proof (induction rest arbitrary: i k)
  case Nil
  then show ?case by simp
next
  case (Cons line rest)
  show ?case
  proof (cases k)
    case 0
    then show ?thesis using Cons.prems by simp
  next
    case (Suc k')
    have nm: "\<not> name_match line" using Cons.prems(3) [rule_format, of 0] Suc by simp
    have "scan_lines lines (i + 1) rest
            = Some (strip (lines ! ((i + 1) + k' + 1)), strip (lines ! ((i + 1) + k' + 2)))"
    proof (rule Cons.IH)
      show "k' < length rest" using Cons.prems(1) Suc by simp
      show "name_match (rest ! k')" using Cons.prems(2) Suc by simp
      show "\<forall>j<k'. \<not> name_match (rest ! j)"
      proof (intro allI impI)
        fix j assume "j < k'"
        then show "\<not> name_match (rest ! j)"
          using Cons.prems(3) [rule_format, of "Suc j"] Suc by simp
      qed
      show "i + 1 + k' + 2 < length lines" using Cons.prems(4) Suc by simp
    qed
    then show ?thesis using nm Suc by simp
  qed
qed


lemma map_of_zip_none: "c \<notin> set ks \<Longrightarrow> map_of (zip ks vs) c = None"
  by (auto simp: map_of_eq_None_iff dest: set_zip_leftD)

lemma upper_char_fixed: "c \<notin> set ''abcdefghijklmnopqrstuvwxyz'' \<Longrightarrow> upper_char c = c"
proof -
  assume "c \<notin> set ''abcdefghijklmnopqrstuvwxyz''"
  then have "map_of (zip ''abcdefghijklmnopqrstuvwxyz'' ''ABCDEFGHIJKLMNOPQRSTUVWXYZ'') c = None"
    by (rule map_of_zip_none)
  then show ?thesis by (simp only: upper_char_def option.case)
qed

lemma space_not_letter: "isspace c \<Longrightarrow> c \<notin> set ''abcdefghijklmnopqrstuvwxyz''"
  by (auto simp: isspace_def)

lemma upper_char_space: "isspace c \<Longrightarrow> upper_char c = c"
  by (rule upper_char_fixed) (rule space_not_letter)

lemma sublist_append_cut:
  assumes "sublist w (l @ ws)" and "w \<noteq> []" and "hd w \<notin> set ws" and "last w \<notin> set ws"
  shows "sublist w l"
proof -
  from assms(1) consider "sublist w l" | "sublist w ws"
    | w1 w2 where "w = w1 @ w2" "suffix w1 l" "prefix w2 ws"
    unfolding sublist_append by blast
  then show ?thesis
  proof cases
    case 1
    then show ?thesis .
  next
    case 2
    then have "set w \<subseteq> set ws" by (rule set_mono_sublist)
    moreover have "hd w \<in> set w" using assms(2) by simp
    ultimately show ?thesis using assms(3) by blast
  next
    case 3
    show ?thesis
    proof (cases "w2 = []")
      case True
      then have "suffix w l" using 3 by simp
      then show ?thesis by (rule suffix_imp_sublist)
    next
      case False
      then have "last w = last w2" using 3(1) by simp
      moreover have "last w2 \<in> set w2" using False by simp
      moreover have "set w2 \<subseteq> set ws" using 3(3) by (rule set_mono_prefix)
      ultimately show ?thesis using assms(4) by auto
    qed
  qed
qed

lemma name_word_ends:
  assumes "upper w = ''ISS'' \<or> upper w = ''ZARYA''"
  shows "w \<noteq> [] \<and> \<not> isspace (hd w) \<and> \<not> isspace (last w)"
proof -
  from assms have ne: "w \<noteq> []" by (auto simp: upper_def)
  have h: "upper_char (hd w) = hd (upper w)"
    using ne by (simp add: upper_def hd_map)
  have l: "upper_char (last w) = last (upper w)"
    using ne by (simp add: upper_def last_map)
  have "\<not> isspace (hd w)"
  proof
    assume sp: "isspace (hd w)"
    then have "hd w = hd (upper w)" using h by (simp add: upper_char_space)
    then show False using sp assms by (auto simp: isspace_def)
  qed
  moreover have "\<not> isspace (last w)"
  proof
    assume sp: "isspace (last w)"
    then have "last w = last (upper w)" using l by (simp add: upper_char_space)
    then show False using sp assms by (auto simp: isspace_def)
  qed
  ultimately show ?thesis using ne by simp
qed

lemma name_match_trailing_space:
  assumes "\<forall>c\<in>set ws. isspace c"
  shows "name_match (line @ ws) = name_match line"
proof
  assume "name_match (line @ ws)"
  then obtain w where w: "sublist w (line @ ws)" "upper w = ''ISS'' \<or> upper w = ''ZARYA''"
    unfolding name_match_iff by blast
  from name_word_ends [OF w(2)] assms
  have "w \<noteq> []" "hd w \<notin> set ws" "last w \<notin> set ws" by auto
  with w(1) have "sublist w line" by (rule sublist_append_cut)
  with w(2) show "name_match line" unfolding name_match_iff by blast
next
  assume "name_match line"
  moreover have "sublist line (line @ ws)" by simp
  ultimately show "name_match (line @ ws)" using name_match_mono by blast
qed

lemma header_name_match: "sublist ''ISS (ZARYA)'' line \<Longrightarrow> name_match line"
proof -
  assume a: "sublist ''ISS (ZARYA)'' line"
  have "sublist ''ISS'' (''ISS'' @ '' (ZARYA)'')" by (rule sublist_append_rightI)
  then have "sublist ''ISS'' ''ISS (ZARYA)''" by simp
  then have "sublist ''ISS'' line" using a by (rule sublist_order.order_trans)
  moreover have "upper ''ISS'' = ''ISS''" by (simp add: upper_def upper_char_def)
  ultimately show ?thesis unfolding name_match_iff by blast
qed

section \<open>Lines of a text and the sample feeds\<close>

lemma split_nl_nonempty: "split_nl s \<noteq> []"
  by (induction s) (auto split: list.splits)

lemma split_nl_snoc:
  "split_nl (s @ [c]) =
     (if c = CHR 0x0A then split_nl s @ [[]]
      else butlast (split_nl s) @ [last (split_nl s) @ [c]])"
proof (induction s)
  case Nil
  then show ?case by simp
next
  case (Cons d s)
  obtain l ls where S: "split_nl s = l # ls"
    using split_nl_nonempty [of s] by (cases "split_nl s") auto
  show ?case using Cons S by (auto split: list.splits)
qed

lemma pair_cons:
  assumes "\<exists>i. i + 2 < length (split_nl s) \<and> name_match (split_nl s ! i)"
  shows "\<exists>i. i + 2 < length (split_nl (c # s)) \<and> name_match (split_nl (c # s) ! i)"
proof -
  from assms obtain i where i: "i + 2 < length (split_nl s)" "name_match (split_nl s ! i)"
    by blast
  obtain l ls where S: "split_nl s = l # ls"
    using split_nl_nonempty [of s] by (cases "split_nl s") auto
  show ?thesis
  proof (cases "c = CHR 0x0A")
    case True
    then have "Suc i + 2 < length (split_nl (c # s)) \<and> name_match (split_nl (c # s) ! Suc i)"
      using i by simp
    then show ?thesis by blast
  next
    case False
    then have E: "split_nl (c # s) = (c # l) # ls" using S by simp
    have "name_match (split_nl (c # s) ! i)"
    proof (cases i)
      case 0
      then have "name_match l" using i(2) S by simp
      moreover have "sublist l (c # l)" by (simp add: sublist_Cons_right)
      ultimately have "name_match (c # l)" using name_match_mono by blast
      then show ?thesis using 0 E by simp
    next
      case (Suc j)
      then show ?thesis using i(2) S E by simp
    qed
    moreover have "i + 2 < length (split_nl (c # s))" using i(1) S E by simp
    ultimately show ?thesis by blast
  qed
qed

lemma pair_snoc:
  assumes "\<exists>i. i + 2 < length (split_nl s) \<and> name_match (split_nl s ! i)"
  shows "\<exists>i. i + 2 < length (split_nl (s @ [c])) \<and> name_match (split_nl (s @ [c]) ! i)"
proof -
  from assms obtain i where i: "i + 2 < length (split_nl s)" "name_match (split_nl s ! i)"
    by blast
  have "length (split_nl s) \<le> length (split_nl (s @ [c]))"
    by (cases "c = CHR 0x0A") (simp_all add: split_nl_snoc)
  then have "i + 2 < length (split_nl (s @ [c]))"
    using i(1) by linarith
  moreover have "split_nl (s @ [c]) ! i = split_nl s ! i"
  proof (cases "c = CHR 0x0A")
    case True
    then show ?thesis using i(1) by (simp add: split_nl_snoc nth_append)
  next
    case False
    have "i < length (butlast (split_nl s))" using i(1) by simp
    then have "(butlast (split_nl s) @ [last (split_nl s) @ [c]]) ! i = butlast (split_nl s) ! i"
      by (simp only: nth_append if_True)
    also have "\<dots> = split_nl s ! i" using i(1) by (simp add: nth_butlast)
    finally show ?thesis using False by (simp add: split_nl_snoc)
  qed
  ultimately show ?thesis using i(2) by auto
qed

lemma pair_prepend:
  "\<exists>i. i + 2 < length (split_nl s) \<and> name_match (split_nl s ! i) \<Longrightarrow>
   \<exists>i. i + 2 < length (split_nl (a @ s)) \<and> name_match (split_nl (a @ s) ! i)"
proof (induction a)
  case Nil
  then show ?case by simp
next
  case (Cons c a)
  then have "\<exists>i. i + 2 < length (split_nl (a @ s)) \<and> name_match (split_nl (a @ s) ! i)"
    by simp
  then show ?case using pair_cons [of "a @ s" c] by simp
qed

lemma pair_append:
  "\<exists>i. i + 2 < length (split_nl s) \<and> name_match (split_nl s ! i) \<Longrightarrow>
   \<exists>i. i + 2 < length (split_nl (s @ b)) \<and> name_match (split_nl (s @ b) ! i)"
proof (induction b rule: rev_induct)
  case Nil
  then show ?case by simp
next
  case (snoc c b)
  then have "\<exists>i. i + 2 < length (split_nl (s @ b)) \<and> name_match (split_nl (s @ b) ! i)"
    by simp
  then show ?case using pair_snoc [of "s @ b" c] by simp
qed

lemma strip_decomp: "\<exists>a b. text = a @ strip text @ b"
proof -
  let ?u = "dropWhile isspace text"
  have "text = takeWhile isspace text @ ?u" by simp
  moreover have "?u = strip text @ rev (takeWhile isspace (rev ?u))"
  proof -
    have "strip text @ rev (takeWhile isspace (rev ?u))
            = rev (takeWhile isspace (rev ?u) @ dropWhile isspace (rev ?u))"
      by (simp only: strip_def rev_append)
    also have "\<dots> = rev (rev ?u)" by (simp only: takeWhile_dropWhile_id)
    also have "\<dots> = ?u" by (simp only: rev_rev_ident)
    finally show ?thesis by (rule sym)
  qed
  ultimately have "text = takeWhile isspace text @ strip text @ rev (takeWhile isspace (rev ?u))"
    by simp
  then show ?thesis by blast
qed

lemma pair_text_lines:
  assumes "\<exists>i. i + 2 < length (text_lines text) \<and> name_match (text_lines text ! i)"
  shows "\<exists>i. i + 2 < length (split_nl text) \<and> name_match (split_nl text ! i)"
proof -
  obtain a b where t: "text = a @ strip text @ b" using strip_decomp by blast
  from assms have "\<exists>i. i + 2 < length (split_nl (strip text)) \<and> name_match (split_nl (strip text) ! i)"
    by (simp add: text_lines_def)
  then have "\<exists>i. i + 2 < length (split_nl (strip text @ b)) \<and> name_match (split_nl (strip text @ b) ! i)"
    by (rule pair_append)
  then have "\<exists>i. i + 2 < length (split_nl (a @ strip text @ b))
                \<and> name_match (split_nl (a @ strip text @ b) ! i)"
    by (rule pair_prepend)
  then show ?thesis using t by simp
qed

lemmas feed_eval = text_lines_def strip_def isspace_def crlf_def
  iss_line1_def iss_line2_def deb_line1_def deb_line2_def noaa_line1_def noaa_line2_def

lemma lines_debris_first:
  "text_lines feed_debris_first
     = [''ISS DEB'', deb_line1, deb_line2, ''ISS (ZARYA)'', iss_line1, iss_line2]"
  by (simp add: feed_debris_first_def feed_eval)

lemma lines_crlf:
  "text_lines feed_crlf
     = [''NOAA 15                 '' @ [CHR 0x0D], noaa_line1 @ [CHR 0x0D], noaa_line2 @ [CHR 0x0D],
        ''iss (zarya)             '' @ [CHR 0x0D], iss_line1 @ [CHR 0x0D], iss_line2]"
  by (simp add: feed_crlf_def feed_eval)

lemma name_match_eval:
  "name_match ''ISS DEB''" "name_match ''ISS (ZARYA)''" "\<not> name_match ''NOAA 15''"
  "\<not> name_match noaa_line1" "\<not> name_match noaa_line2"
  "\<not> name_match (''NOAA 15                 '' @ [CHR 0x0D])"
  "\<not> name_match (noaa_line1 @ [CHR 0x0D])" "\<not> name_match (noaa_line2 @ [CHR 0x0D])"
  "name_match (''iss (zarya)             '' @ [CHR 0x0D])"
  by (simp_all add: name_match_def upper_def upper_char_def noaa_line1_def noaa_line2_def)

lemma strip_eval:
  "strip iss_line1 = iss_line1" "strip iss_line2 = iss_line2"
  "strip (iss_line1 @ [CHR 0x0D]) = iss_line1"
  "strip deb_line1 = deb_line1" "strip deb_line2 = deb_line2"
  by (simp_all add: feed_eval)

lemma lines_noaa_first:
  "text_lines feed_noaa_first
     = [''NOAA 15'', noaa_line1, noaa_line2, ''ISS (ZARYA)'', iss_line1, iss_line2]"
  by (simp add: feed_noaa_first_def feed_eval)

lemma lines_cut_short:
  "text_lines feed_cut_short
     = [''NOAA 15'', noaa_line1, noaa_line2, ''ISS (ZARYA)'', iss_line1]"
  by (simp add: feed_cut_short_def feed_eval)

lemma fetch_text_first:
  assumes "i < length (text_lines text)" and "name_match (text_lines text ! i)"
    and "\<forall>j<i. \<not> name_match (text_lines text ! j)"
  shows "fetch_iss_tle (Text text) errs =
           (if i + 2 < length (text_lines text)
            then Some (strip (text_lines text ! (i + 1)), strip (text_lines text ! (i + 2)))
            else None, errs)"
proof (cases "i + 2 < length (text_lines text)")
  case True
  have "scan_lines (text_lines text) 0 (text_lines text)
          = Some (strip (text_lines text ! (0 + i + 1)), strip (text_lines text ! (0 + i + 2)))"
    using assms True by (intro scan_lines_first) simp_all
  then show ?thesis using True by (simp add: fetch_iss_tle_def)
next
  case False
  have "scan_lines (text_lines text) 0 (text_lines text) = None"
  proof (rule scan_lines_none, intro allI impI)
    fix k assume k: "k < length (text_lines text)" "name_match (text_lines text ! k)"
    have "i \<le> k" using assms(3) k(2) by (meson not_le_imp_less)
    then show "\<not> 0 + k + 2 < length (text_lines text)" using False by simp
  qed
  then show ?thesis using False by (simp add: fetch_iss_tle_def)
qed

lemma fetch_text_none:
  assumes "\<forall>i<length (text_lines text). name_match (text_lines text ! i) \<longrightarrow>
             length (text_lines text) \<le> i + 2"
  shows "fetch_iss_tle (Text text) errs = (None, errs)"
proof -
  have "scan_lines (text_lines text) 0 (text_lines text) = None"
  proof (rule scan_lines_none, intro allI impI)
    fix k assume "k < length (text_lines text)" "name_match (text_lines text ! k)"
    then show "\<not> 0 + k + 2 < length (text_lines text)"
      using assms by (simp add: not_less)
  qed
  then show ?thesis by (simp add: fetch_iss_tle_def)
qed

section \<open>Spelling and surrounding whitespace\<close>

lemma table_lookup:
  assumes "distinct ks" and "length ks = length vs" and "set ks \<inter> set vs = {}"
    and "d \<in> set vs"
  shows "(case map_of (zip ks vs) c of Some C \<Rightarrow> C | None \<Rightarrow> c) = d
           \<longleftrightarrow> (c = d \<or> (c, d) \<in> set (zip ks vs) \<or> (d, c) \<in> set (zip ks vs))"
proof -
  have dist: "distinct (map fst (zip ks vs))" using assms(1,2) by simp
  have no_rev: "(d, c) \<notin> set (zip ks vs)"
    using assms(3,4) by (auto dest: set_zip_leftD)
  show ?thesis
  proof (cases "map_of (zip ks vs) c")
    case None
    then have "(c, d) \<notin> set (zip ks vs)"
      using map_of_is_SomeI [OF dist, of c d] by auto
    then show ?thesis using None no_rev by simp
  next
    case (Some C)
    then have in_tab: "(c, C) \<in> set (zip ks vs)" by (rule map_of_SomeD)
    then have "c \<in> set ks" by (rule set_zip_leftD)
    then have ne: "c \<noteq> d" using assms(3,4) by auto
    have "(c, d) \<in> set (zip ks vs) \<longleftrightarrow> C = d"
    proof
      assume "(c, d) \<in> set (zip ks vs)"
      then have "map_of (zip ks vs) c = Some d" using dist by (rule map_of_is_SomeI [rotated])
      then show "C = d" using Some by simp
    next
      assume "C = d"
      then show "(c, d) \<in> set (zip ks vs)" using in_tab by simp
    qed
    then show ?thesis using Some ne no_rev by simp
  qed
qed

lemma upper_char_same_letter:
  assumes "d \<in> set ''ABCDEFGHIJKLMNOPQRSTUVWXYZ''"
  shows "upper_char c = d \<longleftrightarrow> same_letter c d"
  unfolding upper_char_def same_letter_def
proof (rule table_lookup)
  show "distinct ''abcdefghijklmnopqrstuvwxyz''" by simp
  show "length ''abcdefghijklmnopqrstuvwxyz'' = length ''ABCDEFGHIJKLMNOPQRSTUVWXYZ''" by simp
  show "set ''abcdefghijklmnopqrstuvwxyz'' \<inter> set ''ABCDEFGHIJKLMNOPQRSTUVWXYZ'' = {}" by simp
  show "d \<in> set ''ABCDEFGHIJKLMNOPQRSTUVWXYZ''" by (rule assms)
qed

lemma upper_spells:
  assumes "set p \<subseteq> set ''ABCDEFGHIJKLMNOPQRSTUVWXYZ''"
  shows "upper w = p \<longleftrightarrow> spells w p"
proof -
  have "upper w = p \<longleftrightarrow> list_all2 (\<lambda>c d. upper_char c = d) w p"
    unfolding upper_def by (simp add: list_all2_conv_all_nth list_eq_iff_nth_eq)
  also have "\<dots> \<longleftrightarrow> list_all2 same_letter w p"
  proof
    assume "list_all2 (\<lambda>c d. upper_char c = d) w p"
    then show "list_all2 same_letter w p"
      by (rule list.rel_mono_strong) (use assms upper_char_same_letter in blast)
  next
    assume "list_all2 same_letter w p"
    then show "list_all2 (\<lambda>c d. upper_char c = d) w p"
      by (rule list.rel_mono_strong) (use assms upper_char_same_letter in blast)
  qed
  finally show ?thesis by (simp only: spells_def)
qed

lemma name_match_spells:
  "name_match line \<longleftrightarrow> (\<exists>w. sublist w line \<and> (spells w ''ISS'' \<or> spells w ''ZARYA''))"
proof -
  have a: "upper w = ''ISS'' \<longleftrightarrow> spells w ''ISS''" for w
    by (rule upper_spells) simp
  have b: "upper w = ''ZARYA'' \<longleftrightarrow> spells w ''ZARYA''" for w
    by (rule upper_spells) simp
  show ?thesis unfolding name_match_iff a b ..
qed

lemma strip_ends:
  assumes "strip l = l" and "l \<noteq> []"
  shows "\<not> isspace (hd l) \<and> \<not> isspace (last l)"
proof -
  let ?u = "dropWhile isspace l"
  have "length l = length (dropWhile isspace (rev ?u))"
    using assms(1) by (metis length_rev strip_def)
  moreover have "length (dropWhile isspace (rev ?u)) \<le> length (rev ?u)"
    by (rule length_dropWhile_le)
  moreover have "length ?u \<le> length l" by (rule length_dropWhile_le)
  ultimately have lu: "length ?u = length l"
    and lr: "length (dropWhile isspace (rev ?u)) = length (rev ?u)" by simp_all
  have u: "?u = l"
    using lu by (metis takeWhile_dropWhile_id append_eq_conv_conj length_0_conv
        append_self_conv2 length_append add_cancel_left_left)
  have "dropWhile isspace (rev l) = rev l"
    using lr u by (metis takeWhile_dropWhile_id append_self_conv2 length_0_conv length_append
        add_cancel_left_left)
  then have "\<not> isspace (hd (rev l))" using assms(2) by (simp add: dropWhile_eq_self_iff)
  moreover have "\<not> isspace (hd l)" using u assms(2) by (simp add: dropWhile_eq_self_iff)
  ultimately show ?thesis using assms(2) by (simp add: hd_rev)
qed

lemma strip_trailing_space:
  assumes "strip l = l" and "\<forall>c\<in>set w. isspace c"
  shows "strip (l @ w) = l"
proof (cases "l = []")
  case True
  have dw: "dropWhile isspace w = []" using assms(2) by simp
  have "strip w = []" unfolding strip_def dw by simp
  then show ?thesis using True by simp
next
  case False
  from strip_ends [OF assms(1) False]
  have h: "\<not> isspace (hd l)" and t: "\<not> isspace (last l)" by simp_all
  have "dropWhile isspace (l @ w) = l @ w"
    using False h by (simp add: dropWhile_eq_self_iff)
  moreover have "dropWhile isspace (rev w @ rev l) = dropWhile isspace (rev l)"
    using assms(2) by (simp add: dropWhile_append)
  moreover have "dropWhile isspace (rev l) = rev l"
    using False t by (simp add: dropWhile_eq_self_iff hd_rev)
  ultimately show ?thesis by (simp add: strip_def)
qed

lemma ascii_feeds:
  "is_ascii feed_crlf" "is_ascii feed_padded" "is_ascii feed_cut_short"
  "is_ascii feed_debris_first"
  by (simp_all add: feed_crlf_def feed_padded_def feed_cut_short_def feed_debris_first_def
      is_ascii_def iss_line1_def iss_line2_def noaa_line1_def noaa_line2_def
      deb_line1_def deb_line2_def crlf_def)

lemma lines_padded:
  "text_lines feed_padded
     = [''NOAA 15                 '' @ [CHR 0x0D], noaa_line1 @ [CHR 0x0D], noaa_line2 @ [CHR 0x0D],
        ''ISS (ZARYA)             '' @ [CHR 0x0D], iss_line1 @ [CHR 0x0D], iss_line2]"
  by (simp add: feed_padded_def feed_eval)

section \<open>The claims\<close>

text \<open>
  C1. Whatever sequence of successful refresh cycles is run from the empty history, the
  history never holds more than 20 entries and no two of its entries agree on
  (timestamp, latitude, longitude, altitude). After 25 successful cycles whose fixes have
  pairwise distinct timestamps it holds exactly the fixes of the last 20 cycles, in order,
  and none of the first 5.
\<close>

theorem history_bounded_unique:
  assumes "map cycle_fix envs = map Some fs"
  shows "length (tracking_data (snd (main_loop envs session_init))) \<le> 20
       \<and> distinct (map dedup_key (tracking_data (snd (main_loop envs session_init))))
       \<and> (length fs = 25 \<and> distinct (map timestamp fs) \<longrightarrow>
            tracking_data (snd (main_loop envs session_init)) = drop 5 fs
          \<and> set (take 5 fs) \<inter> set (tracking_data (snd (main_loop envs session_init))) = {})"
proof -
  let ?data = "tracking_data (snd (main_loop envs (session_init :: 'a session)))"
  have run: "?data = foldl merge [] fs"
    using main_loop_success [OF assms, of session_init] by (simp add: session_init_def)
  have inv: "length ?data \<le> 20 \<and> distinct ?data"
    unfolding run by (rule foldl_merge_inv) simp_all
  have keys: "distinct (map dedup_key ?data)"
    using inv by (auto simp: distinct_map intro: inj_on_subset [OF dedup_key_inj])
  have last20: "?data = drop 5 fs \<and> set (take 5 fs) \<inter> set ?data = {}"
    if len: "length fs = 25" and ts: "distinct (map timestamp fs)"
  proof -
    have d: "distinct fs" using ts by (rule timestamps_distinct)
    have e: "?data = drop 5 fs"
      unfolding run using d len by (simp add: foldl_merge_empty tail_def)
    have "distinct (take 5 fs @ drop 5 fs)" using d by simp
    then have "set (take 5 fs) \<inter> set (drop 5 fs) = {}" by (simp only: distinct_append)
    with e show ?thesis by simp
  qed
  show ?thesis using inv keys last20 by blast
qed

theorem history_bounded_unique_witness:
  "map cycle_fix (map sample_env [0..<25]) = map Some (map sample_fix [0..<25])
   \<and> length (map sample_fix [0..<25]) = 25
   \<and> distinct (map timestamp (map sample_fix [0..<25]))
   \<and> length (tracking_data (snd (main_loop (map sample_env [0..<25]) session_init))) \<le> 20
   \<and> tracking_data (snd (main_loop (map sample_env [0..<25]) session_init))
       = map sample_fix [5..<25]"
proof -
  have a: "map cycle_fix (map sample_env [0..<25]) = map Some (map sample_fix [0..<25])"
    by (simp add: sample_env_fix)
  have l: "length (map sample_fix [0..<25]) = 25" by simp
  have t: "distinct (map timestamp (map sample_fix [0..<25]))"
    by (simp add: sample_fix_def comp_def distinct_map inj_on_def)
  have d: "drop 5 (map sample_fix [0..<25]) = map sample_fix [5..<25]"
    by (simp add: drop_map)
  show ?thesis
    using history_bounded_unique [OF a] a l t d by simp
qed

text \<open>
  C2, at a failing input. The fetch finds the header above two lines that are no element
  set, the library refuses them with a \<open>ValueError\<close>, and the exception leaves
  \<open>update_position\<close> and the loop: the cycle listed after it is never run.
\<close>

theorem propagation_error_escapes:
  "cycle_error rejecting_env = Some Invalid
   \<and> update_position rejecting_env session_init = (Raised ''ValueError'', session_init)
   \<and> main_loop [rejecting_env, sample_env 0] session_init
       = (Raised ''ValueError'', session_init)"
proof -
  have f: "fetch_iss_tle (http rejecting_env) [] = (Some (''foo'', ''bar''), [])"
    by (simp add: rejecting_env_def fetch_iss_tle_def text_lines_def strip_def
      isspace_def name_match_def upper_def upper_char_def)
  have g: "get_current_iss_position rejecting_env ''foo'' ''bar'' = Inl ''ValueError''"
    by (simp add: rejecting_env_def)
  have u: "update_position rejecting_env session_init = (Raised ''ValueError'', session_init)"
    by (simp add: update_position_def session_init_def f g)
  have c: "cycle_error rejecting_env = Some Invalid"
    using f g by (simp add: cycle_error_def fetch_iss_tle_def rejecting_env_def)
  show ?thesis using u c by simp
qed


text \<open>
  C3. A refresh cycle that fails, with whichever of the three error kinds, leaves the
  history exactly as it was. In particular, when the first cycle succeeds with fix F1 and
  the second fails with a transport error, the history is [F1] after the second.
\<close>

theorem failed_cycle_keeps_history:
  "(cycle_error env = Some kind \<longrightarrow>
      tracking_data (snd (update_position env st)) = tracking_data st)
   \<and> (cycle_fix env1 = Some f1 \<and> cycle_error env2 = Some Transport \<longrightarrow>
        tracking_data (snd (main_loop [env1, env2] session_init)) = [f1])"
proof (intro conjI impI)
  assume "cycle_error env = Some kind"
  then have "cycle_fix env = None" by (rule cycle_error_some_fix)
  then show "tracking_data (snd (update_position env st)) = tracking_data st"
    by (rule update_position_failure_data)
next
  assume a: "cycle_fix env1 = Some f1 \<and> cycle_error env2 = Some Transport"
  let ?s = "session_init :: 'b session"
  obtain st1 where u1: "update_position env1 ?s = (Returned, st1)"
    and d1: "tracking_data st1 = [f1]"
    using a update_position_success_data [of env1 f1 ?s]
    by (cases "update_position env1 ?s")
       (auto simp: session_init_def merge_def drop_duplicates_def tail_def)
  obtain e where h: "http env2 = RequestException e"
    using a by (cases "http env2") (auto simp: cycle_error_def split: option.splits sum.splits)
  have u2: "update_position env2 st1
              = (Returned, st1\<lparr>errors := errors st1 @ [''Error fetching TLE data: '' @ e]\<rparr>)"
    by (simp add: update_position_def fetch_iss_tle_def h)
  show "tracking_data (snd (main_loop [env1, env2] ?s)) = [f1]"
    by (simp add: u1 u2 d1)
qed

theorem failed_cycle_keeps_history_witness:
  "cycle_error transport_env = Some Transport
   \<and> cycle_fix (sample_env 1) = Some (sample_fix 1)
   \<and> tracking_data (snd (update_position transport_env
         (session_init\<lparr>tracking_data := [sample_fix 0]\<rparr>))) = [sample_fix 0]
   \<and> tracking_data (snd (main_loop [sample_env 1, transport_env] session_init))
       = [sample_fix 1]"
  using failed_cycle_keeps_history
    [of transport_env Transport "session_init\<lparr>tracking_data := [sample_fix 0]\<rparr>"
        "sample_env 1" "sample_fix 1" transport_env]
  by (simp add: transport_env_error sample_env_fix)

text \<open>
  C4 does not hold as stated: the history [F0, F1] arises from two successful cycles, and a
  third cycle producing F0 again leaves it [F0, F1], where the reference algorithm, which
  retains the newly appended entry, gives [F1, F0].
\<close>

theorem merge_reference_counterexample:
  "cycle_fix (sample_env 0) = Some (sample_fix 0)
   \<and> tracking_data (snd (main_loop [sample_env 0, sample_env 1] session_init))
       = [sample_fix 0, sample_fix 1]
   \<and> tracking_data (snd (update_position (sample_env 0)
         (snd (main_loop [sample_env 0, sample_env 1] session_init))))
       = [sample_fix 0, sample_fix 1]
   \<and> reference_merge [sample_fix 0, sample_fix 1] (sample_fix 0)
       = [sample_fix 1, sample_fix 0]
   \<and> tracking_data (snd (update_position (sample_env 0)
         (snd (main_loop [sample_env 0, sample_env 1] session_init))))
       \<noteq> reference_merge
           (tracking_data (snd (main_loop [sample_env 0, sample_env 1] session_init)))
           (sample_fix 0)"
proof -
  have a: "map cycle_fix [sample_env 0, sample_env 1] = map Some [sample_fix 0, sample_fix 1]"
    by (simp add: sample_env_fix)
  have ne: "sample_fix 0 \<noteq> sample_fix 1" by (simp add: sample_fix_def)
  have "tracking_data (snd (main_loop [sample_env 0, sample_env 1] session_init))
          = foldl merge [] [sample_fix 0, sample_fix 1]"
    using main_loop_success [OF a, of session_init] by (simp add: session_init_def)
  also have "\<dots> = [sample_fix 0, sample_fix 1]"
    using ne by (simp add: merge_def drop_duplicates_def tail_def)
  finally have two: "tracking_data (snd (main_loop [sample_env 0, sample_env 1] session_init))
          = [sample_fix 0, sample_fix 1]" .
  have three: "tracking_data (snd (update_position (sample_env 0)
         (snd (main_loop [sample_env 0, sample_env 1] session_init))))
       = [sample_fix 0, sample_fix 1]"
  proof -
    have "tracking_data (snd (update_position (sample_env 0)
         (snd (main_loop [sample_env 0, sample_env 1] session_init))))
       = merge [sample_fix 0, sample_fix 1] (sample_fix 0)"
      using update_position_success_data [OF sample_env_fix, of 0]
      by (simp only: two)
    also have "\<dots> = [sample_fix 0, sample_fix 1]"
      using ne by (simp add: merge_def drop_duplicates_def tail_def)
    finally show ?thesis .
  qed
  have ref: "reference_merge [sample_fix 0, sample_fix 1] (sample_fix 0)
       = [sample_fix 1, sample_fix 0]"
    using ne by (auto simp: reference_merge_def tail_def)
  show ?thesis using two three ref ne by (simp add: sample_env_fix)
qed

text \<open>
  C4, amended. For every history with pairwise distinct entries and every new fix, the
  merge of a successful cycle appends the new fix unless an equal entry is already present,
  in which case that earlier entry stays where it is and the new one is dropped; it then
  keeps the most recent 20 entries. Whenever the new fix equals no prior entry, the result,
  order included, is that of the three-step reference algorithm.
\<close>

theorem merge_keeps_first:
  assumes "cycle_fix env = Some f" and "distinct (tracking_data st)"
  shows "tracking_data (snd (update_position env st))
           = tail 20 (if f \<in> set (tracking_data st) then tracking_data st
                      else tracking_data st @ [f])
       \<and> (f \<notin> set (tracking_data st) \<longrightarrow>
            tracking_data (snd (update_position env st)) = reference_merge (tracking_data st) f)"
  using assms by (simp add: update_position_success merge_distinct_rows reference_merge_new)

theorem merge_keeps_first_witness:
  "cycle_fix (sample_env 1) = Some (sample_fix 1)
   \<and> distinct (tracking_data (session_init\<lparr>tracking_data := [sample_fix 0]\<rparr>))
   \<and> sample_fix 1 \<notin> set (tracking_data (session_init\<lparr>tracking_data := [sample_fix 0]\<rparr>))
   \<and> tracking_data (snd (update_position (sample_env 1)
         (session_init\<lparr>tracking_data := [sample_fix 0]\<rparr>)))
       = [sample_fix 0, sample_fix 1]"
proof -
  have ne: "sample_fix 1 \<noteq> sample_fix 0" by (simp add: sample_fix_def)
  have d: "distinct (tracking_data (session_init\<lparr>tracking_data := [sample_fix 0]\<rparr>))"
    by simp
  show ?thesis
    using merge_keeps_first [OF sample_env_fix d, of 1] ne
    by (simp add: sample_env_fix tail_def)
qed

text \<open>
  C5. From any history, two successful cycles in a row that produce the identical fix leave
  a history holding exactly one entry equal to that fix.
\<close>

theorem same_fix_twice_once:
  assumes "cycle_fix env1 = Some f" and "cycle_fix env2 = Some f"
  shows "count_list (tracking_data (snd (update_position env2 (snd (update_position env1 st))))) f = 1"
proof -
  let ?b1 = "merge (tracking_data st) f"
  have one: "tracking_data (snd (update_position env1 st)) = ?b1"
    using assms(1) by (simp add: update_position_success)
  have two: "tracking_data (snd (update_position env2 (snd (update_position env1 st)))) = merge ?b1 f"
    using assms(2) one by (simp add: update_position_success_data)
  have "f \<in> set (merge ?b1 f)"
    by (rule merge_contains_new) (simp_all add: merge_distinct merge_length)
  then show ?thesis
    unfolding two by (simp add: distinct_count_one merge_distinct)
qed

theorem same_fix_twice_once_witness:
  "cycle_fix (sample_env 3) = Some (sample_fix 3)
   \<and> count_list (tracking_data (snd (update_position (sample_env 3)
        (snd (update_position (sample_env 3) session_init))))) (sample_fix 3) = 1"
  using same_fix_twice_once [OF sample_env_fix sample_env_fix, of 3 session_init]
  by (simp add: sample_env_fix)


text \<open>
  C6. On ASCII text, the scan of \<open>fetch_iss_tle\<close> matches a line exactly when some
  contiguous part of it spells one of the words of the station's name, ISS or ZARYA, in any
  mix of upper and lower case; whitespace after the line's content does not change whether
  it matches. Of the matching lines only the first decides the result: when two lines follow
  it, they are returned, each with the whitespace around it removed; when fewer follow,
  nothing is returned.
\<close>

theorem scan_first_match:
  "(is_ascii line \<longrightarrow>
      (name_match line \<longleftrightarrow>
         (\<exists>w. sublist w line \<and> (spells w ''ISS'' \<or> spells w ''ZARYA''))))
   \<and> (is_ascii (line @ ws) \<and> (\<forall>c\<in>set ws. isspace c) \<longrightarrow>
        name_match (line @ ws) = name_match line)
   \<and> (is_ascii text \<and> i < length (text_lines text) \<and> name_match (text_lines text ! i)
        \<and> (\<forall>j<i. \<not> name_match (text_lines text ! j)) \<longrightarrow>
        fetch_iss_tle (Text text) errs =
          (if i + 2 < length (text_lines text)
           then Some (strip (text_lines text ! (i + 1)), strip (text_lines text ! (i + 2)))
           else None, errs))"
  using name_match_spells [of line] name_match_trailing_space [of ws line]
    fetch_text_first [of i "text" errs]
  by blast

theorem scan_first_match_witness:
  "is_ascii ''iss (zarya)''
   \<and> spells ''iss'' ''ISS''
   \<and> name_match ''iss (zarya)''
   \<and> name_match (''iss (zarya)'' @ ''   '')
   \<and> is_ascii feed_crlf
   \<and> (3::nat) < length (text_lines feed_crlf)
   \<and> name_match (text_lines feed_crlf ! 3)
   \<and> fetch_iss_tle (Text feed_crlf) [] = (Some (iss_line1, iss_line2), [])"
proof -
  have al: "is_ascii ''iss (zarya)''" by (simp add: is_ascii_def)
  have aw: "is_ascii (''iss (zarya)'' @ ''   '')" by (simp add: is_ascii_def)
  have sp: "\<forall>c\<in>set ''   ''. isspace c" by (simp add: isspace_def)
  have w: "sublist ''iss'' ''iss (zarya)'' \<and> spells ''iss'' ''ISS''"
  proof
    have "sublist ''iss'' (''iss'' @ '' (zarya)'')" by (rule sublist_append_rightI)
    then show "sublist ''iss'' ''iss (zarya)''" by simp
    show "spells ''iss'' ''ISS''" by (simp add: spells_def same_letter_def)
  qed
  have len: "(3::nat) < length (text_lines feed_crlf)" by (simp add: lines_crlf)
  have at3: "name_match (text_lines feed_crlf ! 3)"
    by (simp add: lines_crlf name_match_def upper_def upper_char_def)
  have before: "\<forall>j<3. \<not> name_match (text_lines feed_crlf ! j)"
  proof (intro allI impI)
    fix j :: nat assume "j < 3"
    then consider "j = 0" | "j = 1" | "j = 2" by linarith
    then show "\<not> name_match (text_lines feed_crlf ! j)"
      by cases (simp_all add: lines_crlf name_match_def upper_def upper_char_def
          noaa_line1_def noaa_line2_def)
  qed
  have res: "(if 3 + 2 < length (text_lines feed_crlf)
           then Some (strip (text_lines feed_crlf ! (3 + 1)), strip (text_lines feed_crlf ! (3 + 2)))
           else None) = Some (iss_line1, iss_line2)"
    by (simp add: lines_crlf strip_eval)
  have nm: "name_match ''iss (zarya)''"
    using scan_first_match [of "''iss (zarya)''" "''   ''" "feed_crlf" 3 "[]"] al w by blast
  show ?thesis
    using scan_first_match [of "''iss (zarya)''" "''   ''" "feed_crlf" 3 "[]"]
      al aw sp w nm len at3 before res ascii_feeds(1)
    by simp
qed

text \<open>
  C7. When no line of a fetched ASCII text matches the name, or no matching line has two
  further lines after it, \<open>fetch_iss_tle\<close> returns its failure value None and reports
  nothing. This holds for the lines of the text as received and for the lines the scan itself
  sees, those of the text without the whitespace around it.
\<close>

theorem no_pair_not_found:
  assumes "is_ascii text"
    and "lines = split_nl text \<or> lines = text_lines text"
    and "(\<forall>line\<in>set lines. \<not> name_match line)
         \<or> (\<forall>i<length lines. name_match (lines ! i) \<longrightarrow> length lines \<le> i + 2)"
  shows "fetch_iss_tle (Text text) errs = (None, errs)"
proof -
  have no: "\<not> (\<exists>i. i + 2 < length lines \<and> name_match (lines ! i))"
  proof
    assume "\<exists>i. i + 2 < length lines \<and> name_match (lines ! i)"
    then obtain i where i: "i + 2 < length lines" "name_match (lines ! i)" by blast
    then have "i < length lines" by simp
    then have mem: "lines ! i \<in> set lines" by simp
    from assms(3) show False
    proof
      assume "\<forall>line\<in>set lines. \<not> name_match line"
      with mem i(2) show False by blast
    next
      assume "\<forall>i<length lines. name_match (lines ! i) \<longrightarrow> length lines \<le> i + 2"
      with \<open>i < length lines\<close> i(2) have "length lines \<le> i + 2" by blast
      with i(1) show False by simp
    qed
  qed
  have "\<not> (\<exists>i. i + 2 < length (text_lines text) \<and> name_match (text_lines text ! i))"
    using assms(2) no pair_text_lines [of "text"] by blast
  then have "\<forall>i<length (text_lines text). name_match (text_lines text ! i) \<longrightarrow>
             length (text_lines text) \<le> i + 2"
    by (meson not_le_imp_less)
  then show ?thesis by (rule fetch_text_none)
qed

theorem no_pair_not_found_witness:
  "is_ascii feed_cut_short
   \<and> name_match (text_lines feed_cut_short ! 3)
   \<and> length (text_lines feed_cut_short) = 5
   \<and> fetch_iss_tle (Text feed_cut_short) [] = (None, [])"
proof -
  have h: "\<forall>i<length (text_lines feed_cut_short).
       name_match (text_lines feed_cut_short ! i) \<longrightarrow> length (text_lines feed_cut_short) \<le> i + 2"
  proof (intro allI impI)
    fix i assume "i < length (text_lines feed_cut_short)"
      and m: "name_match (text_lines feed_cut_short ! i)"
    then have "i < 5" by (simp add: lines_cut_short)
    then consider "i = 0" | "i = 1" | "i = 2" | "i = 3" | "i = 4" by linarith
    then show "length (text_lines feed_cut_short) \<le> i + 2"
      using m by cases (simp_all add: lines_cut_short name_match_eval)
  qed
  have m3: "name_match (text_lines feed_cut_short ! 3)"
    by (simp add: lines_cut_short name_match_eval)
  show ?thesis
    using no_pair_not_found [OF ascii_feeds(3), of "text_lines feed_cut_short" "[]"] h m3
      ascii_feeds(3)
    by (simp add: lines_cut_short)
qed

text \<open>
  C8 does not hold as stated: the listing below contains the header ISS (ZARYA) followed by
  the station's two well-formed element lines, yet the two lines returned are those of the
  debris object listed before it, whose name also contains ISS.
\<close>

theorem header_pair_counterexample:
  "is_ascii feed_debris_first
   \<and> split_nl feed_debris_first ! 3 = ''ISS (ZARYA)''
   \<and> split_nl feed_debris_first ! 4 = iss_line1
   \<and> split_nl feed_debris_first ! 5 = iss_line2
   \<and> fetch_iss_tle (Text feed_debris_first) [] = (Some (deb_line1, deb_line2), [])
   \<and> (deb_line1, deb_line2) \<noteq> (iss_line1, iss_line2)"
proof -
  have raw: "split_nl feed_debris_first
     = [''ISS DEB'', deb_line1, deb_line2, ''ISS (ZARYA)'', iss_line1, iss_line2, []]"
    by (simp add: feed_debris_first_def feed_eval)
  have m0: "name_match (text_lines feed_debris_first ! 0)"
    by (simp add: lines_debris_first name_match_eval)
  have "fetch_iss_tle (Text feed_debris_first) [] =
          (if 0 + 2 < length (text_lines feed_debris_first)
           then Some (strip (text_lines feed_debris_first ! (0 + 1)),
                      strip (text_lines feed_debris_first ! (0 + 2)))
           else None, [])"
    using m0 by (intro fetch_text_first) (simp_all add: lines_debris_first)
  then have f: "fetch_iss_tle (Text feed_debris_first) [] = (Some (deb_line1, deb_line2), [])"
    by (simp add: lines_debris_first strip_eval)
  have ne: "deb_line1 \<noteq> iss_line1" by (simp add: deb_line1_def iss_line1_def)
  show ?thesis using f ne ascii_feeds(4) by (simp add: raw)
qed

text \<open>
  C8, amended. For every ASCII source text in which a line carrying the header ISS (ZARYA)
  is followed by two element lines, each free of surrounding whitespace (as well-formed
  element lines are) and possibly ended by whitespace such as the carriage return of a
  CR LF line ending, and in which no earlier line contains ISS or ZARYA in any case,
  \<open>fetch_iss_tle\<close> succeeds and returns exactly those two element lines.
\<close>

theorem header_first_match_pair:
  assumes "is_ascii text"
    and "i + 2 < length (text_lines text)"
    and "sublist ''ISS (ZARYA)'' (text_lines text ! i)"
    and "\<forall>j<i. \<not> name_match (text_lines text ! j)"
    and "text_lines text ! (i + 1) = line1 @ end1"
    and "strip line1 = line1" and "\<forall>c\<in>set end1. isspace c"
    and "text_lines text ! (i + 2) = line2 @ end2"
    and "strip line2 = line2" and "\<forall>c\<in>set end2. isspace c"
  shows "fetch_iss_tle (Text text) errs = (Some (line1, line2), errs)"
proof -
  have "name_match (text_lines text ! i)" using assms(3) by (rule header_name_match)
  moreover have "i < length (text_lines text)" using assms(2) by simp
  ultimately have "fetch_iss_tle (Text text) errs =
           (if i + 2 < length (text_lines text)
            then Some (strip (text_lines text ! (i + 1)), strip (text_lines text ! (i + 2)))
            else None, errs)"
    using assms(4) by (intro fetch_text_first)
  moreover have "strip (text_lines text ! (i + 1)) = line1"
    unfolding assms(5) using assms(6,7) by (rule strip_trailing_space)
  moreover have "strip (text_lines text ! (i + 2)) = line2"
    unfolding assms(8) using assms(9,10) by (rule strip_trailing_space)
  ultimately show ?thesis using assms(2) by simp
qed

theorem header_first_match_pair_witness:
  "is_ascii feed_padded
   \<and> 3 + 2 < length (text_lines feed_padded)
   \<and> sublist ''ISS (ZARYA)'' (text_lines feed_padded ! 3)
   \<and> text_lines feed_padded ! (3 + 1) = iss_line1 @ [CHR 0x0D]
   \<and> strip iss_line1 = iss_line1
   \<and> text_lines feed_padded ! (3 + 2) = iss_line2 @ []
   \<and> strip iss_line2 = iss_line2
   \<and> fetch_iss_tle (Text feed_padded) [] = (Some (iss_line1, iss_line2), [])"
proof -
  have len: "3 + 2 < length (text_lines feed_padded)" by (simp add: lines_padded)
  have hd: "sublist ''ISS (ZARYA)'' (text_lines feed_padded ! 3)"
  proof -
    have "sublist ''ISS (ZARYA)'' (''ISS (ZARYA)'' @ (''             '' @ [CHR 0x0D]))"
      by (rule sublist_append_rightI)
    then show ?thesis by (simp add: lines_padded)
  qed
  have before: "\<forall>j<3. \<not> name_match (text_lines feed_padded ! j)"
  proof (intro allI impI)
    fix j :: nat assume "j < 3"
    then consider "j = 0" | "j = 1" | "j = 2" by linarith
    then show "\<not> name_match (text_lines feed_padded ! j)"
      by cases (simp_all add: lines_padded name_match_def upper_def upper_char_def
          noaa_line1_def noaa_line2_def)
  qed
  have l1: "text_lines feed_padded ! (3 + 1) = iss_line1 @ [CHR 0x0D]"
    by (simp add: lines_padded)
  have l2: "text_lines feed_padded ! (3 + 2) = iss_line2 @ []"
    by (simp add: lines_padded)
  have e1: "\<forall>c\<in>set [CHR 0x0D]. isspace c" by (simp add: isspace_def)
  have e2: "\<forall>c\<in>set ([] :: string). isspace c" by simp
  show ?thesis
    using header_first_match_pair [OF ascii_feeds(2) len hd before l1 strip_eval(1) e1
        l2 strip_eval(2) e2, of "[]"]
      ascii_feeds(2) len hd l1 l2 strip_eval(1,2)
    by simp
qed

text \<open>
  C9 does not hold as stated: two successful cycles that produce the identical fix leave a
  history of length 1, not 2, the duplicate being suppressed.
\<close>

theorem length_below_capacity_counterexample:
  "map cycle_fix [sample_env 0, sample_env 0] = map Some [sample_fix 0, sample_fix 0]
   \<and> length [sample_fix 0, sample_fix 0] < 20
   \<and> length (tracking_data (snd (main_loop [sample_env 0, sample_env 0] session_init)))
       \<noteq> length [sample_fix 0, sample_fix 0]"
proof -
  have a: "map cycle_fix [sample_env 0, sample_env 0] = map Some [sample_fix 0, sample_fix 0]"
    by (simp add: sample_env_fix)
  have "tracking_data (snd (main_loop [sample_env 0, sample_env 0] session_init))
          = foldl merge [] [sample_fix 0, sample_fix 0]"
    using main_loop_success [OF a, of session_init] by (simp add: session_init_def)
  also have "\<dots> = [sample_fix 0]"
    by (simp add: merge_def drop_duplicates_def tail_def)
  finally show ?thesis using a by simp
qed

text \<open>
  C9, amended. For every n below 20 and every sequence of n successful cycles, run from
  the empty history, whose fixes are pairwise distinct, the history has length n afterwards.
\<close>

theorem length_below_capacity:
  assumes "map cycle_fix envs = map Some fs" and "distinct fs" and "length fs < 20"
  shows "length (tracking_data (snd (main_loop envs session_init))) = length fs"
proof -
  have "tracking_data (snd (main_loop envs (session_init :: 'a session))) = foldl merge [] fs"
    using main_loop_success [OF assms(1), of session_init] by (simp add: session_init_def)
  also have "\<dots> = tail 20 fs" using assms(2) by (rule foldl_merge_empty)
  also have "\<dots> = fs" using assms(3) by (simp add: tail_short)
  finally show ?thesis by simp
qed

theorem length_below_capacity_witness:
  "map cycle_fix (map sample_env [0..<7]) = map Some (map sample_fix [0..<7])
   \<and> distinct (map sample_fix [0..<7])
   \<and> length (map sample_fix [0..<7]) < 20
   \<and> length (tracking_data (snd (main_loop (map sample_env [0..<7]) session_init))) = 7"
proof -
  have a: "map cycle_fix (map sample_env [0..<7]) = map Some (map sample_fix [0..<7])"
    by (simp add: sample_env_fix)
  have d: "distinct (map sample_fix [0..<7])"
    by (simp add: sample_fix_def distinct_map inj_on_def)
  have l: "length (map sample_fix [0..<7]) < 20" by simp
  show ?thesis using length_below_capacity [OF a d l] a d by simp
qed

text \<open>
  C10 does not hold as stated: when the fetch fails with a transport error, the cycle does
  make an observable update, the message that \<open>fetch_iss_tle\<close> shows through \<open>st.error\<close>.
\<close>

theorem fetch_failure_error_shown_counterexample:
  "fst (fetch_iss_tle (http transport_env) (errors session_init)) = None
   \<and> errors (snd (update_position transport_env session_init))
       = [''Error fetching TLE data: timed out'']
   \<and> errors (snd (update_position transport_env session_init)) \<noteq> errors session_init"
  by (simp add: update_position_def fetch_iss_tle_def transport_env_def session_init_def)

text \<open>
  C10, amended. When \<open>fetch_iss_tle\<close> returns its failure value (on a transport failure, or
  on an ASCII text holding no element pair), \<open>update_position\<close> returns
  normally and leaves the history and what the map, the telemetry panel and the positions
  table show untouched; the whole of its effect is the error message shown on a transport
  failure, and nothing at all when the text was fetched but held no element pair.
\<close>

theorem fetch_failure_frame:
  assumes "ascii_response (http env)"
    and "fst (fetch_iss_tle (http env) (errors st)) = None"
  shows "update_position env st =
           (Returned,
            st\<lparr>errors := errors st @
                 (case http env of
                    RequestException e \<Rightarrow> [''Error fetching TLE data: '' @ e]
                  | Text t \<Rightarrow> [])\<rparr>)
       \<and> tracking_data (snd (update_position env st)) = tracking_data st
       \<and> map_placeholder (snd (update_position env st)) = map_placeholder st
       \<and> telemetry_placeholder (snd (update_position env st)) = telemetry_placeholder st
       \<and> table_placeholder (snd (update_position env st)) = table_placeholder st"
proof -
  have "snd (fetch_iss_tle (http env) (errors st)) =
          errors st @ (case http env of
                         RequestException e \<Rightarrow> [''Error fetching TLE data: '' @ e]
                       | Text t \<Rightarrow> [])"
    by (cases "http env") (simp_all add: fetch_iss_tle_def)
  then show ?thesis by (simp add: update_position_fetch_failed [OF assms(2)])
qed

theorem fetch_failure_frame_witness:
  "ascii_response (http transport_env)
   \<and> fst (fetch_iss_tle (http transport_env)
          (errors (snd (update_position (sample_env 2) session_init)))) = None
   \<and> tracking_data (snd (update_position transport_env
         (snd (update_position (sample_env 2) session_init)))) = [sample_fix 2]
   \<and> map_placeholder (snd (update_position transport_env
         (snd (update_position (sample_env 2) session_init)))) = Some [sample_fix 2]
   \<and> telemetry_placeholder (snd (update_position transport_env
         (snd (update_position (sample_env 2) session_init)))) = Some (sample_fix 2)
   \<and> table_placeholder (snd (update_position transport_env
         (snd (update_position (sample_env 2) session_init)))) = Some [sample_fix 2]
   \<and> errors (snd (update_position transport_env
         (snd (update_position (sample_env 2) session_init))))
       = [''Error fetching TLE data: timed out'']"
proof -
  let ?st = "snd (update_position (sample_env 2) session_init)"
  have f: "fst (fetch_iss_tle (http transport_env) (errors ?st)) = None"
    by (simp add: transport_env_def fetch_iss_tle_def)
  have m: "merge [] (sample_fix 2) = [sample_fix 2]"
    by (simp add: merge_def drop_duplicates_def tail_def)
  have v: "tracking_data ?st = [sample_fix 2]
         \<and> map_placeholder ?st = Some [sample_fix 2]
         \<and> telemetry_placeholder ?st = Some (sample_fix 2)
         \<and> table_placeholder ?st = Some [sample_fix 2]
         \<and> errors ?st = []"
    by (simp add: update_position_success [OF sample_env_fix] session_init_def m
        sort_values_desc_def)
  have h: "http transport_env = RequestException ''timed out''"
    by (simp add: transport_env_def)
  have a: "ascii_response (http transport_env)"
    by (simp add: h ascii_response_def)
  show ?thesis
    using fetch_failure_frame [OF a f] a f v by (simp add: h)
qed

end
